theory Spec2Isabelle
  imports Main "HOL-Library.AList" "HOL-Library.Multiset" "HOL-Library.Word"
begin

section \<open>The publish/subscribe broker: data model\<close>

text \<open>
  A \<open>Subscriber\<close> is a Go channel of messages. A channel value is a reference, so it is
  modelled by the index of the channel in a store of channels (\<open>chans\<close> below); two
  handles alias exactly when they are the same index. The only thing the coordinating
  routine ever does to a subscriber channel is close it, so the store keeps, for every
  channel, its capacity and whether it has been closed. The queue contents are written
  only by the delivery goroutines, which run concurrently and are recorded, not executed.
\<close>

type_synonym Subscriber = nat

datatype 'p Message = Message (Topic: string) (Payload: 'p)

datatype subRequest = SubRequest (sub_topic: string) (sub_sub: Subscriber)

datatype unsubRequest = UnsubRequest (unsub_topic: string) (unsub_sub: Subscriber)

record chan =
  cap :: nat
  is_closed :: bool

text \<open>
  The run-time panics of the Go code, and the one way a caller can hang. Go reports
  every second close as "close of closed channel"; the model tells the close of a
  subscriber channel (\<open>CloseOfClosedChannel\<close>) from a second \<open>Stop\<close>, which closes \<open>stopCh\<close>
  again (\<open>CloseOfClosedStopCh\<close>).
\<close>

datatype fault =
    CloseOfClosedChannel
  | CloseOfClosedStopCh
  | CloseOfNilChannel
  | SendOnClosedChannel
  | BlockedForever
  | DivideByZero
  | MakeChanSizeOutOfRange
  | SliceBoundsOutOfRange

text \<open>
  The \<open>Broker\<close> struct. \<open>subscriptions\<close> is \<open>map[string]map[Subscriber]bool\<close>: the outer
  map is an association list from topics to the keys of the inner map (every value the
  code stores in an inner map is \<open>true\<close>), both kept in insertion order. Go leaves the
  iteration order of a map unspecified; the model iterates in list order.
  The four request channels are unbuffered and carry no state of their own beyond having
  been closed. \<open>chans\<close> is the store of subscriber channels, \<open>spawned\<close> lists the delivery
  goroutines that have been started and have not finished yet (subscriber, message), and
  \<open>running\<close> says that the loop of \<open>run\<close> has not returned.
\<close>

record 'p Broker =
  subscriptions :: "(string \<times> Subscriber list) list"
  subCh_closed :: bool
  unsubCh_closed :: bool
  pubCh_closed :: bool
  stopCh_closed :: bool
  chans :: "chan list"
  spawned :: "(Subscriber \<times> 'p Message) list"
  running :: bool

text \<open>What one iteration of the \<open>select\<close> in \<open>run\<close> can receive.\<close>

datatype 'p event =
    StopSig
  | FromSubCh subRequest
  | FromUnsubCh unsubRequest
  | FromPubCh "'p Message"

section \<open>The coordinating routine\<close>

text \<open>\<open>NewBroker\<close>, given the channels that already exist in the program.\<close>

definition NewBroker :: "chan list \<Rightarrow> 'p Broker" where
  "NewBroker cs =
     \<lparr>subscriptions = [], subCh_closed = False, unsubCh_closed = False,
      pubCh_closed = False, stopCh_closed = False, chans = cs, spawned = [],
      running = True\<rparr>"

text \<open>\<open>b.subscriptions[t]\<close>: the inner map of a topic, the nil (empty) map when absent.\<close>

definition lookup_subs :: "'p Broker \<Rightarrow> string \<Rightarrow> Subscriber list" where
  "lookup_subs b t = (case map_of (subscriptions b) t of None \<Rightarrow> [] | Some hs \<Rightarrow> hs)"

text \<open>Every handle in some inner map, as often as it occurs.\<close>

definition registered :: "'p Broker \<Rightarrow> Subscriber list" where
  "registered b = concat (map snd (subscriptions b))"

definition is_open :: "chan list \<Rightarrow> Subscriber \<Rightarrow> bool" where
  "is_open cs h \<longleftrightarrow> h < length cs \<and> \<not> is_closed (cs ! h)"

text \<open>
  \<open>close(sub)\<close>. Closing a closed channel panics. A handle outside the store is no
  channel at all; the only such value of a channel type is \<open>nil\<close>, whose close panics too.
\<close>

definition close_chan :: "Subscriber \<Rightarrow> chan list \<Rightarrow> fault + chan list" where
  "close_chan h cs =
     (if length cs \<le> h then Inl CloseOfNilChannel
      else if is_closed (cs ! h) then Inl CloseOfClosedChannel
      else Inr (cs[h := (cs ! h)\<lparr>is_closed := True\<rparr>]))"

text \<open>The two nested loops of the stop case: \<open>for sub := range topicSubs { close(sub) }\<close>.\<close>

fun close_subs :: "Subscriber list \<Rightarrow> chan list \<Rightarrow> fault + chan list" where
  "close_subs [] cs = Inr cs"
| "close_subs (h # hs) cs =
     (case close_chan h cs of Inl f \<Rightarrow> Inl f | Inr cs' \<Rightarrow> close_subs hs cs')"

fun close_topics :: "(string \<times> Subscriber list) list \<Rightarrow> chan list \<Rightarrow> fault + chan list" where
  "close_topics [] cs = Inr cs"
| "close_topics (p # rest) cs =
     (case close_subs (snd p) cs of Inl f \<Rightarrow> Inl f | Inr cs' \<Rightarrow> close_topics rest cs')"

text \<open>The deferred function of \<open>run\<close>: the loop is over and the intake channels are closed.\<close>

definition exit_run :: "'p Broker \<Rightarrow> 'p Broker" where
  "exit_run b =
     b\<lparr>subCh_closed := True, unsubCh_closed := True, pubCh_closed := True, running := False\<rparr>"

definition on_stop :: "'p Broker \<Rightarrow> fault + 'p Broker" where
  "on_stop b =
     (case close_topics (subscriptions b) (chans b) of
        Inl f \<Rightarrow> Inl f
      | Inr cs \<Rightarrow> Inr (exit_run (b\<lparr>chans := cs\<rparr>)))"

text \<open>\<open>m[sub] = true\<close> on an inner map: a key already there keeps its place.\<close>

definition set_true :: "Subscriber \<Rightarrow> Subscriber list \<Rightarrow> Subscriber list" where
  "set_true h hs = (if h \<in> set hs then hs else hs @ [h])"

definition on_sub :: "subRequest \<Rightarrow> 'p Broker \<Rightarrow> 'p Broker" where
  "on_sub req b =
     (let subs1 = (case map_of (subscriptions b) (sub_topic req) of
                     None \<Rightarrow> AList.update (sub_topic req) [] (subscriptions b)
                   | Some topicSubs \<Rightarrow> subscriptions b)
      in b\<lparr>subscriptions := AList.map_entry (sub_topic req) (set_true (sub_sub req)) subs1\<rparr>)"

definition on_unsub :: "unsubRequest \<Rightarrow> 'p Broker \<Rightarrow> fault + 'p Broker" where
  "on_unsub req b =
     (case map_of (subscriptions b) (unsub_topic req) of
        None \<Rightarrow> Inr b
      | Some topicSubs \<Rightarrow>
          if unsub_sub req \<in> set topicSubs then
            (let b' = b\<lparr>subscriptions :=
                        AList.map_entry (unsub_topic req) (removeAll (unsub_sub req))
                          (subscriptions b)\<rparr>
             in case close_chan (unsub_sub req) (chans b') of
                  Inl f \<Rightarrow> Inl f
                | Inr cs \<Rightarrow> Inr (b'\<lparr>chans := cs\<rparr>))
          else Inr b)"

text \<open>
  The publish case starts one goroutine per subscriber of the topic and goes on; the loop
  does not wait for them. Their body is \<open>delivery_body\<close> below, and \<open>finish_delivery\<close>
  runs one of them.
\<close>

definition on_pub :: "'p Message \<Rightarrow> 'p Broker \<Rightarrow> 'p Broker" where
  "on_pub msg b =
     (case map_of (subscriptions b) (Topic msg) of
        None \<Rightarrow> b
      | Some topicSubs \<Rightarrow> b\<lparr>spawned := spawned b @ map (\<lambda>s. (s, msg)) topicSubs\<rparr>)"

fun select_case :: "'p event \<Rightarrow> 'p Broker \<Rightarrow> fault + 'p Broker" where
  "select_case StopSig b = on_stop b"
| "select_case (FromSubCh req) b = Inr (on_sub req b)"
| "select_case (FromUnsubCh req) b = on_unsub req b"
| "select_case (FromPubCh msg) b = Inr (on_pub msg b)"

text \<open>
  \<open>run\<close> on the events in the order the \<open>select\<close> receives them. Once the loop has
  returned nothing is received any more; when the events are used up the loop is waiting.
  A panic is not recovered anywhere: it ends the goroutine and with it the program, so
  the result is the fault alone.
\<close>

fun run :: "'p event list \<Rightarrow> 'p Broker \<Rightarrow> fault + 'p Broker" where
  "run [] b = Inr b"
| "run (e # es) b =
     (if \<not> running b then Inr b
      else case select_case e b of Inl f \<Rightarrow> Inl f | Inr b' \<Rightarrow> run es b')"

section \<open>The delivery goroutines\<close>

text \<open>
  The body of a delivery goroutine: a \<open>select\<close> between the send \<open>s <- m\<close> and the end of
  the one-second context. Which of the two happens first is not decided by the code; it
  is an argument here. A send on a closed channel panics; a send on a nil channel never
  happens, so that the deadline ends the \<open>select\<close>. The result says whether the message
  was sent.
\<close>

datatype select_choice = SendFirst | DeadlineFirst

definition delivery_body :: "select_choice \<Rightarrow> Subscriber \<Rightarrow> chan list \<Rightarrow> fault + bool" where
  "delivery_body c s cs =
     (case c of
        DeadlineFirst \<Rightarrow> Inr False
      | SendFirst \<Rightarrow>
          if length cs \<le> s then Inr False
          else if is_closed (cs ! s) then Inl SendOnClosedChannel
          else Inr True)"

text \<open>
  The \<open>i\<close>-th of the started goroutines runs its body and ends; its panic is a panic of
  the program.
\<close>

definition finish_delivery :: "select_choice \<Rightarrow> nat \<Rightarrow> 'p Broker \<Rightarrow> fault + 'p Broker" where
  "finish_delivery c i b =
     (if length (spawned b) \<le> i then Inr b
      else case delivery_body c (fst (spawned b ! i)) (chans b) of
             Inl f \<Rightarrow> Inl f
           | Inr sent \<Rightarrow> Inr (b\<lparr>spawned := take i (spawned b) @ drop (Suc i) (spawned b)\<rparr>))"

section \<open>The public operations\<close>

text \<open>\<open>make(Subscriber, n)\<close>: a new channel, open, at the next free place of the store.\<close>

definition make_Subscriber :: "nat \<Rightarrow> 'p Broker \<Rightarrow> Subscriber \<times> 'p Broker" where
  "make_Subscriber n b =
     (length (chans b), b\<lparr>chans := chans b @ [\<lparr>cap = n, is_closed = False\<rparr>]\<rparr>)"

text \<open>
  A send on an unbuffered intake channel: it panics when the channel is closed, never
  completes when nobody receives, and otherwise hands the request to the loop, which
  handles it.
\<close>

definition handoff :: "bool \<Rightarrow> 'p event \<Rightarrow> 'p Broker \<Rightarrow> fault + 'p Broker" where
  "handoff ch_closed e b =
     (if ch_closed then Inl SendOnClosedChannel
      else if \<not> running b then Inl BlockedForever
      else select_case e b)"

definition Subscribe :: "string \<Rightarrow> 'p Broker \<Rightarrow> fault + (Subscriber \<times> 'p Broker)" where
  "Subscribe t b =
     (let (sub, b1) = make_Subscriber 10 b
      in case handoff (subCh_closed b1) (FromSubCh (SubRequest t sub)) b1 of
           Inl f \<Rightarrow> Inl f
         | Inr b2 \<Rightarrow> Inr (sub, b2))"

definition Unsubscribe :: "string \<Rightarrow> Subscriber \<Rightarrow> 'p Broker \<Rightarrow> fault + 'p Broker" where
  "Unsubscribe t sub b = handoff (unsubCh_closed b) (FromUnsubCh (UnsubRequest t sub)) b"

definition Publish :: "string \<Rightarrow> 'p \<Rightarrow> 'p Broker \<Rightarrow> fault + 'p Broker" where
  "Publish t payload b = handoff (pubCh_closed b) (FromPubCh (Message t payload)) b"

text \<open>
  \<open>Stop\<close> is \<open>close(b.stopCh)\<close> and nothing else: it returns at once, and the loop goes on
  until its \<open>select\<close> takes the stop case. Until then the \<open>select\<close> may still take requests
  that are handed over after \<open>Stop\<close> has returned.
\<close>

definition Stop :: "'p Broker \<Rightarrow> fault + 'p Broker" where
  "Stop b =
     (if stopCh_closed b then Inl CloseOfClosedStopCh
      else Inr (b\<lparr>stopCh_closed := True\<rparr>))"

text \<open>A call of \<open>Stop\<close> with the loop taking the stop signal before any other request.\<close>

definition stop_and_signal :: "'p Broker \<Rightarrow> fault + 'p Broker" where
  "stop_and_signal b =
     (case Stop b of
        Inl f \<Rightarrow> Inl f
      | Inr b1 \<Rightarrow> if running b1 then select_case StopSig b1 else Inr b1)"

datatype 'p call =
    CallSubscribe string
  | CallUnsubscribe string Subscriber
  | CallPublish string 'p
  | CallStop

fun do_call :: "'p call \<Rightarrow> 'p Broker \<Rightarrow> fault + 'p Broker" where
  "do_call (CallSubscribe t) b =
     (case Subscribe t b of Inl f \<Rightarrow> Inl f | Inr r \<Rightarrow> Inr (snd r))"
| "do_call (CallUnsubscribe t sub) b = Unsubscribe t sub b"
| "do_call (CallPublish t payload) b = Publish t payload b"
| "do_call CallStop b = stop_and_signal b"

fun calls :: "'p call list \<Rightarrow> 'p Broker \<Rightarrow> fault + 'p Broker" where
  "calls [] b = Inr b"
| "calls (c # cs) b =
     (case do_call c b of Inl f \<Rightarrow> Inl f | Inr b' \<Rightarrow> calls cs b')"

section \<open>The state the public operations keep the broker in\<close>

text \<open>
  Every handle in an inner map is a channel of the store; while the loop runs, no handle
  is in two inner maps (or twice in one), every registered channel is open and the intake
  channels are open; after the loop has returned the intake channels are closed.
\<close>

definition broker_inv :: "'p Broker \<Rightarrow> bool" where
  "broker_inv b \<longleftrightarrow>
     (\<forall>h\<in>set (registered b). h < length (chans b)) \<and>
     (if running b
      then distinct (registered b) \<and> (\<forall>h\<in>set (registered b). is_open (chans b) h) \<and>
           \<not> subCh_closed b \<and> \<not> unsubCh_closed b \<and> \<not> pubCh_closed b
      else subCh_closed b \<and> unsubCh_closed b \<and> pubCh_closed b)"

section \<open>What the specification says the subscription sets are\<close>

text \<open>
  The requests a test of the registration logic sends: Subscribe and Unsubscribe only.
\<close>

fun is_request :: "'p event \<Rightarrow> bool" where
  "is_request (FromSubCh req) = True"
| "is_request (FromUnsubCh req) = True"
| "is_request e = False"

text \<open>
  Written from the specification's words, not from the code: the handles registered under
  a topic are those subscribed to it minus those unsubscribed from it, the requests taken
  in submission order, starting from the sets \<open>R\<close>.
\<close>

fun spec_registered :: "(string \<Rightarrow> Subscriber set) \<Rightarrow> 'p event list \<Rightarrow> string \<Rightarrow> Subscriber set" where
  "spec_registered R [] = R"
| "spec_registered R (FromSubCh req # es) =
     spec_registered (R(sub_topic req := insert (sub_sub req) (R (sub_topic req)))) es"
| "spec_registered R (FromUnsubCh req # es) =
     spec_registered (R(unsub_topic req := R (unsub_topic req) - {unsub_sub req})) es"
| "spec_registered R (e # es) = spec_registered R es"

text \<open>
  Also from the specification's words: an Unsubscribe request closes the channel of its
  handle when the handle is in the topic's set at that moment. \<open>spec_closes\<close> lists the
  channels a sequence of requests closes, in order.
\<close>

fun spec_closes :: "(string \<Rightarrow> Subscriber set) \<Rightarrow> 'p event list \<Rightarrow> Subscriber list" where
  "spec_closes R [] = []"
| "spec_closes R (FromSubCh req # es) =
     spec_closes (R(sub_topic req := insert (sub_sub req) (R (sub_topic req)))) es"
| "spec_closes R (FromUnsubCh req # es) =
     (if unsub_sub req \<in> R (unsub_topic req) then [unsub_sub req] else []) @
     spec_closes (R(unsub_topic req := R (unsub_topic req) - {unsub_sub req})) es"
| "spec_closes R (e # es) = spec_closes R es"

section \<open>The summation benchmark\<close>

text \<open>
  Go's \<open>int\<close> is a 64-bit machine integer on the benchmark's platforms, and \<open>sum += v * v\<close>
  wraps around: the elements and the sums are \<open>64 word\<close>. Lengths and indices are
  natural numbers; \<open>len(data) + workers - 1\<close> and \<open>i * chunkSize\<close> stay far below \<open>2^63\<close>
  for every slice that fits in memory and every \<open>workers\<close> that \<open>make\<close> accepts.
\<close>

definition sumSquaresSequential :: "64 word list \<Rightarrow> 64 word" where
  "sumSquaresSequential data = fold (\<lambda>v sum. sum + v * v) data 0"

text \<open>
  \<open>data[lo:hi]\<close>: a slice expression panics unless \<open>lo \<le> hi \<le> cap(data)\<close>. The code only
  uses it with \<open>hi \<le> len(data)\<close>, and the capacity is at least the length.
\<close>

definition slice :: "'a list \<Rightarrow> nat \<Rightarrow> nat \<Rightarrow> fault + 'a list" where
  "slice xs lo hi =
     (if lo \<le> hi \<and> hi \<le> length xs then Inr (take (hi - lo) (drop lo xs))
      else Inl SliceBoundsOutOfRange)"

text \<open>The body of the goroutine: the sum of the squares of its chunk, sent to \<open>results\<close>.\<close>

definition worker :: "64 word list \<Rightarrow> 64 word" where
  "worker chunk = fold (\<lambda>v sum. sum + v * v) chunk 0"

text \<open>
  The first loop, over the worker indices. The slice expression is the argument of the
  \<open>go\<close> statement and is evaluated by the calling goroutine, so its panic is a panic of
  \<open>sumSquaresConcurrent\<close>. The result lists what the goroutines send.
\<close>

fun spawn_workers :: "64 word list \<Rightarrow> nat \<Rightarrow> nat list \<Rightarrow> fault + 64 word list" where
  "spawn_workers data chunkSize [] = Inr []"
| "spawn_workers data chunkSize (i # rest) =
     (let start = i * chunkSize;
          stop = min (start + chunkSize) (length data)
      in case slice data start stop of
           Inl f \<Rightarrow> Inl f
         | Inr chunk \<Rightarrow>
             (case spawn_workers data chunkSize rest of
                Inl f \<Rightarrow> Inl f
              | Inr sums \<Rightarrow> Inr (worker chunk # sums)))"

text \<open>
  \<open>sumSquaresConcurrent\<close>: the division panics for \<open>workers = 0\<close>, \<open>make(chan int, workers)\<close>
  panics for a negative size, and the second loop adds up what it receives. The values
  arrive in any order; addition is commutative, and the model adds them in spawn order.
  (\<open>make\<close> also refuses a buffer too large for the platform; that limit is not in the
  source and is left out.)
\<close>

definition sumSquaresConcurrent :: "64 word list \<Rightarrow> int \<Rightarrow> fault + 64 word" where
  "sumSquaresConcurrent data workers =
     (if workers = 0 then Inl DivideByZero
      else if workers < 0 then Inl MakeChanSizeOutOfRange
      else
        let chunkSize = (length data + nat workers - 1) div nat workers
        in case spawn_workers data chunkSize [0..<nat workers] of
             Inl f \<Rightarrow> Inl f
           | Inr results \<Rightarrow> Inr (fold (\<lambda>r total. total + r) results 0))"

section \<open>Facts about channels and the subscription map\<close>

lemma close_chan_open:
  "is_open cs h \<Longrightarrow> close_chan h cs = Inr (cs[h := (cs ! h)\<lparr>is_closed := True\<rparr>])"
  by (simp add: close_chan_def is_open_def)

lemma close_chan_Inr:
  "close_chan h cs = Inr cs' \<Longrightarrow> is_open cs h \<and> cs' = cs[h := (cs ! h)\<lparr>is_closed := True\<rparr>]"
  by (auto simp: close_chan_def is_open_def split: if_splits)

lemma lookup_subs_map_entry:
  "lookup_subs (b\<lparr>subscriptions := AList.map_entry t f (subscriptions b)\<rparr>) t' =
     (if t' = t then (case map_of (subscriptions b) t of None \<Rightarrow> [] | Some hs \<Rightarrow> f hs)
      else lookup_subs b t')"
  by (simp add: lookup_subs_def map_of_map_entry split: option.splits)

lemma close_subs_append:
  "close_subs (xs @ ys) cs =
     (case close_subs xs cs of Inl f \<Rightarrow> Inl f | Inr cs' \<Rightarrow> close_subs ys cs')"
  by (induction xs arbitrary: cs) (auto split: sum.splits)

lemma close_topics_concat:
  "close_topics subs cs = close_subs (concat (map snd subs)) cs"
  by (induction subs arbitrary: cs) (auto simp: close_subs_append split: sum.splits)

lemma close_subs_ok:
  "distinct hs \<Longrightarrow> \<forall>h\<in>set hs. is_open cs h \<Longrightarrow>
     \<exists>cs'. close_subs hs cs = Inr cs' \<and> length cs' = length cs \<and>
           (\<forall>i<length cs. cap (cs' ! i) = cap (cs ! i) \<and>
                (is_closed (cs' ! i) \<longleftrightarrow> i \<in> set hs \<or> is_closed (cs ! i)))"
proof (induction hs arbitrary: cs)
  case Nil
  then show ?case by simp
next
  case (Cons h hs)
  let ?cs1 = "cs[h := (cs ! h)\<lparr>is_closed := True\<rparr>]"
  from Cons.prems have op: "is_open cs h" by simp
  then have c1: "close_chan h cs = Inr ?cs1" by (rule close_chan_open)
  have "\<forall>x\<in>set hs. is_open ?cs1 x"
    using Cons.prems by (auto simp: is_open_def nth_list_update)
  moreover have "distinct hs" using Cons.prems by simp
  ultimately obtain cs' where cs': "close_subs hs ?cs1 = Inr cs'" "length cs' = length ?cs1"
    "\<forall>i<length ?cs1. cap (cs' ! i) = cap (?cs1 ! i) \<and>
                (is_closed (cs' ! i) \<longleftrightarrow> i \<in> set hs \<or> is_closed (?cs1 ! i))"
    using Cons.IH[of ?cs1] by blast
  have "close_subs (h # hs) cs = Inr cs'" using c1 cs'(1) by simp
  moreover have "length cs' = length cs" using cs'(2) by simp
  moreover have "\<forall>i<length cs. cap (cs' ! i) = cap (cs ! i) \<and>
                (is_closed (cs' ! i) \<longleftrightarrow> i \<in> set (h # hs) \<or> is_closed (cs ! i))"
    using cs'(3) op by (auto simp: nth_list_update is_open_def)
  ultimately show ?case by blast
qed

lemma close_subs_Inr_iff:
  "(\<exists>cs'. close_subs hs cs = Inr cs') \<longleftrightarrow> distinct hs \<and> (\<forall>h\<in>set hs. is_open cs h)"
proof
  show "\<exists>cs'. close_subs hs cs = Inr cs' \<Longrightarrow> distinct hs \<and> (\<forall>h\<in>set hs. is_open cs h)"
  proof (induction hs arbitrary: cs)
    case Nil then show ?case by simp
  next
    case (Cons h hs)
    then obtain cs' where r: "close_subs (h # hs) cs = Inr cs'" by blast
    then obtain cs1 where c1: "close_chan h cs = Inr cs1" and c2: "close_subs hs cs1 = Inr cs'"
      by (auto split: sum.splits)
    from c1 have op: "is_open cs h" and cs1: "cs1 = cs[h := (cs ! h)\<lparr>is_closed := True\<rparr>]"
      using close_chan_Inr by blast+
    from Cons.IH[of cs1] c2 have ih: "distinct hs" "\<forall>x\<in>set hs. is_open cs1 x" by blast+
    have "h \<notin> set hs"
    proof
      assume "h \<in> set hs"
      with ih have "is_open cs1 h" by blast
      with op cs1 show False by (simp add: is_open_def)
    qed
    moreover have "\<forall>x\<in>set hs. is_open cs x"
      using ih(2) cs1 op by (auto simp: is_open_def nth_list_update split: if_splits)
    ultimately show ?case using ih op by simp
  qed
next
  assume "distinct hs \<and> (\<forall>h\<in>set hs. is_open cs h)"
  then show "\<exists>cs'. close_subs hs cs = Inr cs'" using close_subs_ok[of hs cs] by blast
qed

lemma lookup_subs_registered:
  "h \<in> set (lookup_subs b t) \<Longrightarrow> h \<in> set (registered b)"
proof -
  assume a: "h \<in> set (lookup_subs b t)"
  then obtain hs where hs: "map_of (subscriptions b) t = Some hs" "h \<in> set hs"
    by (cases "map_of (subscriptions b) t") (auto simp: lookup_subs_def)
  then have "(t, hs) \<in> set (subscriptions b)" by (simp add: map_of_SomeD)
  with hs(2) show ?thesis by (force simp: registered_def)
qed

lemma run_not_running: "\<not> running b \<Longrightarrow> run evs b = Inr b"
  by (cases evs) simp_all

section \<open>The registered handles under subscribe and unsubscribe\<close>

lemma update_absent: "map_of al t = None \<Longrightarrow> AList.update t v al = al @ [(t, v)]"
  by (induction al) (auto split: if_splits)

lemma map_entry_absent: "map_of al t = None \<Longrightarrow> AList.map_entry t f al = al"
  by (induction al) (auto split: if_splits)

lemma map_entry_append_absent:
  "map_of al t = None \<Longrightarrow> AList.map_entry t f (al @ [(t, v)]) = al @ [(t, f v)]"
  by (induction al) (auto split: if_splits)

lemma map_of_in_concat:
  "map_of al t = Some hs \<Longrightarrow> set hs \<subseteq> set (concat (map snd al))"
  by (induction al) (auto split: if_splits)

lemma set_concat_map_entry_insert:
  "map_of al t = Some hs \<Longrightarrow>
     set (concat (map snd (AList.map_entry t (set_true h) al))) = insert h (set (concat (map snd al)))"
proof (induction al)
  case Nil
  then show ?case by simp
next
  case (Cons p al)
  show ?case
  proof (cases "fst p = t")
    case True
    then show ?thesis by (auto simp: set_true_def)
  next
    case False
    with Cons.prems have "map_of al t = Some hs" by (cases p) (simp split: if_splits)
    from Cons.IH[OF this] False show ?thesis by auto
  qed
qed

lemma set_concat_map_entry_sub:
  "set (concat (map snd (AList.map_entry t (set_true h) al))) \<subseteq> insert h (set (concat (map snd al)))"
proof (induction al)
  case Nil
  then show ?case by simp
next
  case (Cons p al)
  show ?case
  proof (cases "fst p = t")
    case True
    then show ?thesis by (auto simp: set_true_def)
  next
    case False
    with Cons.IH show ?thesis by auto
  qed
qed

lemma distinct_concat_map_entry_insert:
  "h \<notin> set (concat (map snd al)) \<Longrightarrow> distinct (concat (map snd al)) \<Longrightarrow>
     distinct (concat (map snd (AList.map_entry t (set_true h) al)))"
proof (induction al)
  case Nil
  then show ?case by simp
next
  case (Cons p al)
  show ?case
  proof (cases "fst p = t")
    case True
    with Cons.prems show ?thesis by (auto simp: set_true_def)
  next
    case False
    from Cons.prems have h: "h \<notin> set (snd p)" "h \<notin> set (concat (map snd al))"
      and d: "distinct (snd p)" "distinct (concat (map snd al))"
         "set (snd p) \<inter> set (concat (map snd al)) = {}"
      by auto
    have "set (snd p) \<inter> set (concat (map snd (AList.map_entry t (set_true h) al))) = {}"
      using set_concat_map_entry_sub[of t h al] h(1) d(3) by blast
    with Cons.IH[OF h(2) d(2)] d(1) False show ?thesis by simp
  qed
qed

lemma registered_on_sub:
  "set (registered (on_sub (SubRequest t h) b)) = insert h (set (registered b))"
proof (cases "map_of (subscriptions b) t")
  case None
  then show ?thesis
    by (simp add: on_sub_def registered_def update_absent map_entry_append_absent set_true_def)
next
  case (Some hs)
  then show ?thesis
    using set_concat_map_entry_insert[OF Some, of h]
    by (simp add: on_sub_def registered_def del: set_concat)
qed

lemma distinct_registered_on_sub:
  assumes "h \<notin> set (registered b)" "distinct (registered b)"
  shows "distinct (registered (on_sub (SubRequest t h) b))"
proof (cases "map_of (subscriptions b) t")
  case None
  then show ?thesis using assms
    by (simp add: on_sub_def registered_def update_absent map_entry_append_absent set_true_def)
next
  case (Some hs)
  then show ?thesis using assms distinct_concat_map_entry_insert[of h "subscriptions b" t]
    by (simp add: on_sub_def registered_def del: set_concat distinct_concat)
qed

lemma set_concat_map_entry_remove_sub:
  "set (concat (map snd (AList.map_entry t (removeAll h) al))) \<subseteq> set (concat (map snd al))"
proof (induction al)
  case Nil
  then show ?case by simp
next
  case (Cons p al)
  show ?case
  proof (cases "fst p = t")
    case True
    then show ?thesis by auto
  next
    case False
    with Cons.IH show ?thesis by auto
  qed
qed

lemma set_concat_map_entry_remove:
  "map_of al t = Some hs \<Longrightarrow> h \<in> set hs \<Longrightarrow> distinct (concat (map snd al)) \<Longrightarrow>
     set (concat (map snd (AList.map_entry t (removeAll h) al))) = set (concat (map snd al)) - {h}"
proof (induction al)
  case Nil
  then show ?case by simp
next
  case (Cons p al)
  from Cons.prems(3) have d: "distinct (snd p)" "distinct (concat (map snd al))"
         "set (snd p) \<inter> set (concat (map snd al)) = {}"
    by auto
  show ?case
  proof (cases "fst p = t")
    case True
    with Cons.prems(1) have "snd p = hs" by (cases p) simp
    with Cons.prems(2) d(3) have "h \<notin> set (concat (map snd al))" by blast
    with True show ?thesis by auto
  next
    case False
    with Cons.prems(1) have m: "map_of al t = Some hs" by (cases p) (simp split: if_splits)
    from map_of_in_concat[OF m] Cons.prems(2) d(3) have "h \<notin> set (snd p)" by blast
    with Cons.IH[OF m Cons.prems(2) d(2)] False show ?thesis by auto
  qed
qed

lemma distinct_concat_map_entry_remove:
  "distinct (concat (map snd al)) \<Longrightarrow>
     distinct (concat (map snd (AList.map_entry t (removeAll h) al)))"
proof (induction al)
  case Nil
  then show ?case by simp
next
  case (Cons p al)
  from Cons.prems have d: "distinct (snd p)" "distinct (concat (map snd al))"
         "set (snd p) \<inter> set (concat (map snd al)) = {}"
    by auto
  show ?case
  proof (cases "fst p = t")
    case True
    with d show ?thesis by (auto simp: distinct_removeAll)
  next
    case False
    have "set (snd p) \<inter> set (concat (map snd (AList.map_entry t (removeAll h) al))) = {}"
      using set_concat_map_entry_remove_sub[of t h al] d(3) by blast
    with Cons.IH[OF d(2)] d(1) False show ?thesis by simp
  qed
qed

lemma lookup_subs_on_sub:
  "lookup_subs (on_sub (SubRequest t h) b) t' =
     (if t' = t then set_true h (lookup_subs b t) else lookup_subs b t')"
  by (cases "map_of (subscriptions b) t")
     (simp_all add: on_sub_def lookup_subs_def map_of_map_entry update_conv')

lemma map_entry_id: "map_of al t = Some hs \<Longrightarrow> f hs = hs \<Longrightarrow> AList.map_entry t f al = al"
  by (induction al) (auto split: if_splits)

lemma on_sub_registered_noop:
  assumes "h \<in> set (lookup_subs b t)"
  shows "on_sub (SubRequest t h) b = b"
proof -
  from assms obtain hs where hs: "map_of (subscriptions b) t = Some hs" "h \<in> set hs"
    by (cases "map_of (subscriptions b) t") (auto simp: lookup_subs_def)
  then have "AList.map_entry t (set_true h) (subscriptions b) = subscriptions b"
    by (intro map_entry_id[of _ _ hs]) (simp_all add: set_true_def)
  with hs show ?thesis by (simp add: on_sub_def)
qed

lemma set_true_set: "set (set_true h hs) = insert h (set hs)"
  by (auto simp: set_true_def)

lemma set_true_distinct: "distinct hs \<Longrightarrow> distinct (set_true h hs)"
  by (auto simp: set_true_def)

section \<open>The store never shrinks\<close>

lemma close_subs_length: "close_subs hs cs = Inr cs' \<Longrightarrow> length cs' = length cs"
proof (induction hs arbitrary: cs)
  case Nil
  then show ?case by simp
next
  case (Cons h hs)
  then obtain cs1 where c1: "close_chan h cs = Inr cs1" and c2: "close_subs hs cs1 = Inr cs'"
    by (auto split: sum.splits)
  from close_chan_Inr[OF c1] have "length cs1 = length cs" by simp
  with Cons.IH[OF c2] show ?case by simp
qed

lemma select_case_length:
  assumes "select_case e b = Inr b'"
  shows "length (chans b') = length (chans b)"
proof (cases e)
  case StopSig
  with assms obtain cs' where "close_subs (registered b) (chans b) = Inr cs'" "b' = exit_run (b\<lparr>chans := cs'\<rparr>)"
    by (auto simp: on_stop_def close_topics_concat registered_def split: sum.splits)
  then show ?thesis using close_subs_length[of "registered b" "chans b" cs'] by (simp add: exit_run_def)
next
  case (FromSubCh req)
  with assms show ?thesis by (auto simp: on_sub_def Let_def)
next
  case (FromUnsubCh req)
  with assms show ?thesis
    by (auto simp: on_unsub_def Let_def dest!: close_chan_Inr split: option.splits if_splits sum.splits)
next
  case (FromPubCh m)
  with assms show ?thesis by (auto simp: on_pub_def split: option.splits)
qed




section \<open>The public operations keep the invariant\<close>

lemma inv_NewBroker: "broker_inv (NewBroker cs0)"
  by (simp add: broker_inv_def NewBroker_def registered_def)

lemma registered_chans_update [simp]: "registered (b\<lparr>chans := cs\<rparr>) = registered b"
  by (simp add: registered_def)

lemma inv_on_sub_fresh:
  assumes "broker_inv b" "running b"
  shows "broker_inv (on_sub (SubRequest t (length (chans b)))
            (b\<lparr>chans := chans b @ [\<lparr>cap = n, is_closed = False\<rparr>]\<rparr>))"
proof -
  let ?h = "length (chans b)"
  let ?b1 = "b\<lparr>chans := chans b @ [\<lparr>cap = n, is_closed = False\<rparr>]\<rparr>"
  let ?b2 = "on_sub (SubRequest t ?h) ?b1"
  have fresh: "?h \<notin> set (registered b)" using assms(1) by (auto simp: broker_inv_def)
  have d: "distinct (registered b)" and o: "\<forall>h\<in>set (registered b). is_open (chans b) h"
    using assms by (auto simp: broker_inv_def)
  have r: "set (registered ?b2) = insert ?h (set (registered b))"
    using registered_on_sub[of t ?h ?b1] by simp
  have c: "chans ?b2 = chans b @ [\<lparr>cap = n, is_closed = False\<rparr>]" "running ?b2"
     "\<not> subCh_closed ?b2" "\<not> unsubCh_closed ?b2" "\<not> pubCh_closed ?b2"
    using assms by (simp_all add: on_sub_def Let_def broker_inv_def)
  have "distinct (registered ?b2)"
    using distinct_registered_on_sub[of ?h ?b1 t] fresh d by simp
  moreover have "\<forall>h\<in>set (registered ?b2). is_open (chans ?b2) h"
    using o r c(1) by (auto simp: is_open_def nth_append)
  moreover have "\<forall>h\<in>set (registered ?b2). h < length (chans ?b2)"
    using assms(1) r c(1) by (auto simp: broker_inv_def)
  ultimately show ?thesis using c by (simp add: broker_inv_def)
qed

lemma Subscribe_inv:
  assumes "broker_inv b"
  shows "case Subscribe t b of
           Inl f \<Rightarrow> f = SendOnClosedChannel \<and> \<not> running b
         | Inr r \<Rightarrow> broker_inv (snd r) \<and> running b"
proof (cases "running b")
  case True
  then have "\<not> subCh_closed b" using assms by (auto simp: broker_inv_def)
  then show ?thesis using True inv_on_sub_fresh[OF assms True, of t 10]
    by (simp add: Subscribe_def make_Subscriber_def handoff_def)
next
  case False
  then have "subCh_closed b" using assms by (auto simp: broker_inv_def)
  then show ?thesis using False by (simp add: Subscribe_def make_Subscriber_def handoff_def)
qed

lemma Publish_inv:
  assumes "broker_inv b"
  shows "case Publish t p b of
           Inl f \<Rightarrow> f = SendOnClosedChannel \<and> \<not> running b
         | Inr b' \<Rightarrow> broker_inv b' \<and> running b"
proof (cases "running b")
  case True
  then have "\<not> pubCh_closed b" using assms by (auto simp: broker_inv_def)
  moreover have "broker_inv (on_pub (Message t p) b)"
    using assms by (auto simp: on_pub_def broker_inv_def registered_def split: option.splits)
  ultimately show ?thesis using True by (simp add: Publish_def handoff_def)
next
  case False
  then have "pubCh_closed b" using assms by (auto simp: broker_inv_def)
  then show ?thesis using False by (simp add: Publish_def handoff_def)
qed

lemma inv_on_unsub:
  assumes "broker_inv b" "running b"
  shows "\<exists>b'. on_unsub (UnsubRequest t h) b = Inr b' \<and> broker_inv b' \<and> running b'"
proof (cases "h \<in> set (lookup_subs b t)")
  case False
  then have "on_unsub (UnsubRequest t h) b = Inr b"
    by (simp add: on_unsub_def lookup_subs_def split: option.splits)
  with assms show ?thesis by simp
next
  case True
  then obtain hs where hs: "map_of (subscriptions b) t = Some hs" "h \<in> set hs"
    by (cases "map_of (subscriptions b) t") (auto simp: lookup_subs_def)
  have d: "distinct (registered b)" and o: "\<forall>h\<in>set (registered b). is_open (chans b) h"
    using assms by (auto simp: broker_inv_def)
  have hr: "h \<in> set (registered b)" using True by (rule lookup_subs_registered)
  with o have op: "is_open (chans b) h" by blast
  let ?b' = "b\<lparr>subscriptions := AList.map_entry t (removeAll h) (subscriptions b),
               chans := (chans b)[h := (chans b ! h)\<lparr>is_closed := True\<rparr>]\<rparr>"
  have s: "on_unsub (UnsubRequest t h) b = Inr ?b'"
    using hs op by (simp add: on_unsub_def close_chan_open)
  have r: "set (registered ?b') = set (registered b) - {h}"
    using set_concat_map_entry_remove[OF hs] d by (simp add: registered_def del: set_concat)
  have "distinct (registered ?b')"
    using distinct_concat_map_entry_remove[of "subscriptions b" t h] d
    by (simp add: registered_def del: distinct_concat)
  moreover have "\<forall>x\<in>set (registered ?b'). is_open (chans ?b') x"
    using o r by (auto simp: is_open_def)
  moreover have "\<forall>x\<in>set (registered ?b'). x < length (chans ?b')"
    using assms(1) r by (auto simp: broker_inv_def)
  ultimately have "broker_inv ?b'" using assms by (simp add: broker_inv_def)
  with s assms(2) show ?thesis by simp
qed

lemma Unsubscribe_inv:
  assumes "broker_inv b"
  shows "case Unsubscribe t h b of
           Inl f \<Rightarrow> f = SendOnClosedChannel \<and> \<not> running b
         | Inr b' \<Rightarrow> broker_inv b' \<and> running b"
proof (cases "running b")
  case True
  then have "\<not> unsubCh_closed b" using assms by (auto simp: broker_inv_def)
  then show ?thesis using True inv_on_unsub[OF assms True, of t h]
    by (auto simp add: Unsubscribe_def handoff_def)
next
  case False
  then have "unsubCh_closed b" using assms by (auto simp: broker_inv_def)
  then show ?thesis using False by (simp add: Unsubscribe_def handoff_def)
qed

lemma inv_on_stop:
  assumes "broker_inv b" "running b"
  shows "\<exists>b'. on_stop b = Inr b' \<and> broker_inv b' \<and> \<not> running b'"
proof -
  have d: "distinct (registered b)" and o: "\<forall>h\<in>set (registered b). is_open (chans b) h"
    using assms by (auto simp: broker_inv_def)
  from close_subs_ok[OF d o] obtain cs' where
    cs': "close_subs (registered b) (chans b) = Inr cs'" "length cs' = length (chans b)"
    by blast
  let ?b' = "exit_run (b\<lparr>chans := cs'\<rparr>)"
  have "on_stop b = Inr ?b'"
    using cs'(1) by (simp add: on_stop_def close_topics_concat registered_def)
  moreover have "broker_inv ?b'"
    using assms(1) cs'(2) by (simp add: broker_inv_def exit_run_def registered_def)
  moreover have "\<not> running ?b'" by (simp add: exit_run_def)
  ultimately show ?thesis by blast
qed

lemma stop_and_signal_inv:
  assumes "broker_inv b"
  shows "case stop_and_signal b of
           Inl f \<Rightarrow> f = CloseOfClosedStopCh
         | Inr b' \<Rightarrow> broker_inv b'"
proof (cases "stopCh_closed b")
  case True
  then show ?thesis by (simp add: stop_and_signal_def Stop_def)
next
  case False
  let ?b1 = "b\<lparr>stopCh_closed := True\<rparr>"
  have "registered ?b1 = registered b" by (simp add: registered_def)
  then have i1: "broker_inv ?b1" using assms by (simp add: broker_inv_def)
  show ?thesis
  proof (cases "running b")
    case True
    then have "running ?b1" by simp
    from inv_on_stop[OF i1 this] show ?thesis using False True
      by (auto simp: stop_and_signal_def Stop_def)
  next
    case False
    then show ?thesis using i1 \<open>\<not> stopCh_closed b\<close>
      by (simp add: stop_and_signal_def Stop_def)
  qed
qed

lemma do_call_inv:
  assumes "broker_inv b"
  shows "case do_call c b of
           Inl f \<Rightarrow> f = SendOnClosedChannel \<or> f = CloseOfClosedStopCh
         | Inr b' \<Rightarrow> broker_inv b'"
proof (cases c)
  case (CallSubscribe t)
  then show ?thesis using Subscribe_inv[OF assms, of t] by (auto split: sum.splits)
next
  case (CallUnsubscribe t h)
  then show ?thesis using Unsubscribe_inv[OF assms, of t h] by (auto split: sum.splits)
next
  case (CallPublish t p)
  then show ?thesis using Publish_inv[OF assms, of t p] by (auto split: sum.splits)
next
  case CallStop
  then show ?thesis using stop_and_signal_inv[OF assms] by (auto split: sum.splits)
qed

lemma calls_inv:
  "broker_inv b \<Longrightarrow>
     (case calls cs b of
        Inl f \<Rightarrow> f = SendOnClosedChannel \<or> f = CloseOfClosedStopCh
      | Inr b' \<Rightarrow> broker_inv b')"
proof (induction cs arbitrary: b)
  case Nil
  then show ?case by simp
next
  case (Cons c cs)
  show ?case
  proof (cases "do_call c b")
    case (Inl f)
    then show ?thesis using do_call_inv[OF Cons.prems, of c] by simp
  next
    case (Inr b1)
    then have "broker_inv b1" using do_call_inv[OF Cons.prems, of c] by simp
    from Cons.IH[OF this] Inr show ?thesis by simp
  qed
qed

section \<open>The loop against the specification's sets\<close>

lemma run_refines:
  "running b \<Longrightarrow> list_all is_request evs \<Longrightarrow>
   (\<forall>t. set (lookup_subs b t) = R t) \<Longrightarrow> (\<forall>t. distinct (lookup_subs b t)) \<Longrightarrow>
   distinct (spec_closes R evs) \<Longrightarrow> (\<forall>h\<in>set (spec_closes R evs). is_open (chans b) h) \<Longrightarrow>
   \<exists>b'. run evs b = Inr b' \<and> running b' \<and>
        (\<forall>t. set (lookup_subs b' t) = spec_registered R evs t) \<and>
        (\<forall>t. distinct (lookup_subs b' t))"
proof (induction evs arbitrary: b R)
  case Nil
  then show ?case by simp
next
  case (Cons e evs)
  show ?case
  proof (cases e)
    case StopSig
    with Cons.prems(2) show ?thesis by simp
  next
    case (FromPubCh m)
    with Cons.prems(2) show ?thesis by simp
  next
    case (FromSubCh req)
    obtain t h where req: "req = SubRequest t h" by (cases req)
    let ?b1 = "on_sub (SubRequest t h) b"
    let ?R1 = "R(t := insert h (R t))"
    have r1: "running ?b1" using Cons.prems(1) by (simp add: on_sub_def Let_def)
    have c1: "chans ?b1 = chans b" by (simp add: on_sub_def Let_def)
    have s1: "\<forall>t'. set (lookup_subs ?b1 t') = ?R1 t'"
      using Cons.prems(3) by (simp add: lookup_subs_on_sub set_true_set)
    have d1: "\<forall>t'. distinct (lookup_subs ?b1 t')"
      using Cons.prems(4) by (simp add: lookup_subs_on_sub set_true_distinct)
    have "distinct (spec_closes ?R1 evs)" "\<forall>x\<in>set (spec_closes ?R1 evs). is_open (chans ?b1) x"
      using Cons.prems(5,6) FromSubCh req c1 by simp_all
    moreover have "list_all is_request evs" using Cons.prems(2) by simp
    ultimately obtain b' where b': "run evs ?b1 = Inr b'" "running b'"
       "\<forall>t'. set (lookup_subs b' t') = spec_registered ?R1 evs t'" "\<forall>t'. distinct (lookup_subs b' t')"
      using Cons.IH[OF r1 _ s1 d1] by blast
    have "run (e # evs) b = run evs ?b1" using Cons.prems(1) FromSubCh req by simp
    moreover have "spec_registered R (e # evs) = spec_registered ?R1 evs"
      using FromSubCh req by simp
    ultimately show ?thesis using b' by metis
  next
    case (FromUnsubCh req)
    obtain t h where req: "req = UnsubRequest t h" by (cases req)
    let ?R1 = "R(t := R t - {h})"
    have tl: "list_all is_request evs" using Cons.prems(2) by simp
    show ?thesis
    proof (cases "h \<in> R t")
      case False
      then have "h \<notin> set (lookup_subs b t)" using Cons.prems(3) by simp
      then have s: "select_case e b = Inr b"
        using FromUnsubCh req by (simp add: on_unsub_def lookup_subs_def split: option.splits)
      have R1: "?R1 = R" using False by auto
      have "distinct (spec_closes R evs)" "\<forall>x\<in>set (spec_closes R evs). is_open (chans b) x"
        using Cons.prems(5,6) FromUnsubCh req False R1 by simp_all
      from Cons.IH[OF Cons.prems(1) tl Cons.prems(3,4) this] obtain b' where
        b': "run evs b = Inr b'" "running b'"
            "\<forall>t'. set (lookup_subs b' t') = spec_registered R evs t'"
            "\<forall>t'. distinct (lookup_subs b' t')"
        by blast
      have "run (e # evs) b = run evs b" using s Cons.prems(1) by simp
      moreover have "spec_registered R (e # evs) = spec_registered R evs"
        using FromUnsubCh req R1 by simp
      ultimately show ?thesis using b' by metis
    next
      case True
      then have p: "h \<in> set (lookup_subs b t)" using Cons.prems(3) by simp
      have cl: "spec_closes R (e # evs) = h # spec_closes ?R1 evs"
        using True FromUnsubCh req by simp
      have op: "is_open (chans b) h" using Cons.prems(6) cl by simp
      let ?b1 = "b\<lparr>subscriptions := AList.map_entry t (removeAll h) (subscriptions b),
               chans := (chans b)[h := (chans b ! h)\<lparr>is_closed := True\<rparr>]\<rparr>"
      from p obtain hs where hs: "map_of (subscriptions b) t = Some hs" "h \<in> set hs"
        by (cases "map_of (subscriptions b) t") (auto simp: lookup_subs_def)
      have s: "select_case e b = Inr ?b1"
        using hs op FromUnsubCh req by (simp add: on_unsub_def close_chan_open)
      have l1: "\<And>t'. lookup_subs ?b1 t' = (if t' = t then removeAll h (lookup_subs b t) else lookup_subs b t')"
        using hs by (simp add: lookup_subs_def map_of_map_entry)
      have r1: "running ?b1" using Cons.prems(1) by simp
      have s1: "\<forall>t'. set (lookup_subs ?b1 t') = ?R1 t'"
        using Cons.prems(3) by (auto simp: l1)
      have d1: "\<forall>t'. distinct (lookup_subs ?b1 t')"
        using Cons.prems(4) by (simp add: l1 distinct_removeAll)
      have dc: "distinct (spec_closes ?R1 evs)" and hn: "h \<notin> set (spec_closes ?R1 evs)"
        using Cons.prems(5) cl by simp_all
      have "\<forall>x\<in>set (spec_closes ?R1 evs). is_open (chans ?b1) x"
      proof
        fix x assume x: "x \<in> set (spec_closes ?R1 evs)"
        with hn have "x \<noteq> h" by auto
        moreover have "is_open (chans b) x" using Cons.prems(6) cl x by simp
        ultimately show "is_open (chans ?b1) x" by (simp add: is_open_def)
      qed
      from Cons.IH[OF r1 tl s1 d1 dc this] obtain b' where
        b': "run evs ?b1 = Inr b'" "running b'"
            "\<forall>t'. set (lookup_subs b' t') = spec_registered ?R1 evs t'"
            "\<forall>t'. distinct (lookup_subs b' t')"
        by blast
      have "run (e # evs) b = run evs ?b1" using s Cons.prems(1) by simp
      moreover have "spec_registered R (e # evs) = spec_registered ?R1 evs"
        using FromUnsubCh req by simp
      ultimately show ?thesis using b' by metis
    qed
  qed
qed

section \<open>Chunks add up\<close>

lemma fold_squares_acc: "fold (\<lambda>v sum. sum + v * v) xs a = a + fold (\<lambda>v sum. sum + v * v) xs (0::64 word)"
proof (induction xs arbitrary: a)
  case Nil
  then show ?case by simp
next
  case (Cons x xs)
  show ?case
    using Cons.IH[of "a + x * x"] Cons.IH[of "0 + x * x"] by (simp add: add.assoc)
qed

lemma worker_eq: "worker chunk = sumSquaresSequential chunk"
  by (simp add: worker_def sumSquaresSequential_def)

lemma sumSquares_append:
  "sumSquaresSequential (xs @ ys) = sumSquaresSequential xs + sumSquaresSequential ys"
  using fold_squares_acc[of ys "fold (\<lambda>v sum. sum + v * v) xs 0"]
  by (simp add: sumSquaresSequential_def)

lemma fold_total_acc: "fold (\<lambda>r total. total + r) rs a = a + fold (\<lambda>r total. total + r) rs (0::64 word)"
proof (induction rs arbitrary: a)
  case Nil
  then show ?case by simp
next
  case (Cons r rs)
  show ?case
    using Cons.IH[of "a + r"] Cons.IH[of "0 + r"] by (simp add: add.assoc)
qed

lemma spawn_workers_sum:
  "(\<forall>j. i \<le> j \<and> j < w \<longrightarrow> j * c \<le> length data) \<Longrightarrow> i \<le> w \<Longrightarrow> length data \<le> w * c \<Longrightarrow>
     \<exists>rs. spawn_workers data c [i..<w] = Inr rs \<and>
          fold (\<lambda>r total. total + r) rs 0 = sumSquaresSequential (drop (i * c) data)"
proof (induction "w - i" arbitrary: i)
  case 0
  then have "i = w" by simp
  with 0 show ?case by (simp add: sumSquaresSequential_def)
next
  case (Suc k)
  then have lt: "i < w" by simp
  have st: "i * c \<le> length data" using Suc.prems(1) lt by simp
  let ?start = "i * c"
  let ?stop = "min (?start + c) (length data)"
  let ?chunk = "take (?stop - ?start) (drop ?start data)"
  have sl: "slice data ?start ?stop = Inr ?chunk" using st by (simp add: slice_def)
  have "k = w - Suc i" using Suc.hyps(2) by simp
  moreover have "\<forall>j. Suc i \<le> j \<and> j < w \<longrightarrow> j * c \<le> length data" using Suc.prems(1) by simp
  moreover have "Suc i \<le> w" using lt by simp
  ultimately obtain rs where rs: "spawn_workers data c [Suc i..<w] = Inr rs"
     "fold (\<lambda>r total. total + r) rs 0 = sumSquaresSequential (drop (Suc i * c) data)"
    using Suc.hyps(1)[of "Suc i"] Suc.prems(3) by blast
  have up: "[i..<w] = i # [Suc i..<w]" using lt by (simp add: upt_rec)
  have sp: "spawn_workers data c [i..<w] = Inr (worker ?chunk # rs)"
    using sl rs(1) by (simp add: up Let_def)
  have ch: "?chunk = take c (drop ?start data)"
  proof (cases "?start + c \<le> length data")
    case True
    then show ?thesis by simp
  next
    case False
    then have "?stop - ?start = length data - ?start" by simp
    moreover have "length (drop ?start data) \<le> c" using False by simp
    ultimately show ?thesis by simp
  qed
  have "take c (drop ?start data) @ drop c (drop ?start data) = drop ?start data"
    by (rule append_take_drop_id)
  moreover have "drop c (drop ?start data) = drop (Suc i * c) data"
    by (simp add: add.commute)
  ultimately have "drop ?start data = take c (drop ?start data) @ drop (Suc i * c) data"
    by metis
  then have "sumSquaresSequential (drop ?start data) =
       sumSquaresSequential ?chunk + sumSquaresSequential (drop (Suc i * c) data)"
    using sumSquares_append[of "take c (drop ?start data)" "drop (Suc i * c) data"] ch by simp
  moreover have "fold (\<lambda>r total. total + r) (worker ?chunk # rs) 0 =
       worker ?chunk + fold (\<lambda>r total. total + r) rs 0"
    using fold_total_acc[of rs "worker ?chunk"] by simp
  ultimately show ?case using sp rs(2) by (simp add: worker_eq)
qed

lemma sumSquaresConcurrent_agrees:
  assumes "0 < w" and "(nat w - 1) * ((length data + nat w - 1) div nat w) \<le> length data"
  shows "sumSquaresConcurrent data w = Inr (sumSquaresSequential data)"
proof -
  let ?w = "nat w"
  let ?c = "(length data + ?w - 1) div ?w"
  have wpos: "0 < ?w" using assms(1) by simp
  have cover: "length data \<le> ?w * ?c"
  proof -
    have "length data + ?w - 1 < ?w * ?c + ?w"
      using wpos dividend_less_times_div[of ?w "length data + ?w - 1"] by (simp add: mult.commute)
    then show ?thesis using wpos by linarith
  qed
  have "\<forall>j. 0 \<le> j \<and> j < ?w \<longrightarrow> j * ?c \<le> length data"
  proof (intro allI impI)
    fix j assume "0 \<le> j \<and> j < ?w"
    then have "j \<le> ?w - 1" by simp
    then have "j * ?c \<le> (?w - 1) * ?c" by (rule mult_le_mono1)
    then show "j * ?c \<le> length data" using assms(2) by (rule le_trans)
  qed
  from spawn_workers_sum[OF this _ cover] obtain rs where
    "spawn_workers data ?c [0..<?w] = Inr rs"
    "fold (\<lambda>r total. total + r) rs 0 = sumSquaresSequential (drop (0 * ?c) data)"
    by blast
  then show ?thesis using assms(1) by (simp add: sumSquaresConcurrent_def Let_def)
qed

section \<open>Closing a subscriber channel once\<close>

text \<open>
  C1, as the code has it. In every state that the public operations \<open>Subscribe\<close>,
  \<open>Unsubscribe\<close>, \<open>Publish\<close> and \<open>Stop\<close> reach from a new broker, no subscriber channel has
  been closed twice (no call ends in the panic of a second close of a subscriber channel;
  the only faults are a send on a closed intake channel after the stop and a second
  \<open>Stop\<close>); while the loop runs every handle is in at most one inner map and every
  registered handle's channel is open, so a closed handle is in no topic's set; and when
  the loop has returned the broker has stopped and its intake channels are closed.
  This rests on \<open>Subscribe\<close> making a new channel for every request.
\<close>

theorem public_operations_close_once:
  "case calls cs (NewBroker cs0) of
     Inl f \<Rightarrow> f = SendOnClosedChannel \<or> f = CloseOfClosedStopCh
   | Inr b \<Rightarrow>
       if running b
       then distinct (registered b) \<and> (\<forall>h\<in>set (registered b). is_open (chans b) h)
       else subCh_closed b \<and> unsubCh_closed b \<and> pubCh_closed b"
proof -
  have "case calls cs (NewBroker cs0 :: 'a Broker) of
          Inl f \<Rightarrow> f = SendOnClosedChannel \<or> f = CloseOfClosedStopCh
        | Inr b' \<Rightarrow> broker_inv b'"
    by (rule calls_inv[OF inv_NewBroker])
  then show ?thesis
    by (cases "calls cs (NewBroker cs0 :: 'a Broker)") (simp_all add: broker_inv_def)
qed

theorem public_operations_close_once_witness:
  "case calls [CallSubscribe ''a'', CallSubscribe ''b'', CallPublish ''a'' 7,
               CallUnsubscribe ''a'' 0] (NewBroker [] :: nat Broker) of
     Inl f \<Rightarrow> False
   | Inr b \<Rightarrow> running b \<and> registered b = [1] \<and> is_open (chans b) 1 \<and>
              is_closed (chans b ! 0)"
  using public_operations_close_once
          [of "[CallSubscribe ''a'', CallSubscribe ''b'', CallPublish ''a'' 7,
                CallUnsubscribe ''a'' 0]" "[]"]
  by (simp add: NewBroker_def Subscribe_def make_Subscriber_def handoff_def on_sub_def
        on_unsub_def on_pub_def Unsubscribe_def Publish_def set_true_def close_chan_def
        registered_def is_open_def)

text \<open>
  C1 as stated fails when one handle is registered under two topics: after the requests
  Subscribe (a, 0), Subscribe (b, 0), Unsubscribe (a, 0) the channel 0 is closed and is
  still in the set of topic b, with the loop running; a further Unsubscribe (b, 0) closes
  it a second time.
\<close>

theorem handle_under_two_topics_counterexample:
  "run [FromSubCh (SubRequest ''a'' 0), FromSubCh (SubRequest ''b'' 0),
        FromUnsubCh (UnsubRequest ''a'' 0)]
       (NewBroker [\<lparr>cap = 10, is_closed = False\<rparr>] :: nat Broker)
     = Inr \<lparr>subscriptions = [(''a'', []), (''b'', [0])], subCh_closed = False,
            unsubCh_closed = False, pubCh_closed = False, stopCh_closed = False,
            chans = [\<lparr>cap = 10, is_closed = True\<rparr>], spawned = [], running = True\<rparr> \<and>
   run [FromSubCh (SubRequest ''a'' 0), FromSubCh (SubRequest ''b'' 0),
        FromUnsubCh (UnsubRequest ''a'' 0), FromUnsubCh (UnsubRequest ''b'' 0)]
       (NewBroker [\<lparr>cap = 10, is_closed = False\<rparr>] :: nat Broker)
     = Inl CloseOfClosedChannel"
  by (simp add: NewBroker_def on_sub_def on_unsub_def set_true_def close_chan_def)

section \<open>Subscribe and Unsubscribe requests in sequence\<close>

text \<open>
  C2, as the code has it. For every finite sequence of Subscribe and Unsubscribe requests
  in which no channel is closed a second time (the channels the sequence closes are
  pairwise different and open at the start), the loop of a new broker handles the whole
  sequence, and afterwards the handles registered under each topic are exactly those
  subscribed to it minus those unsubscribed from it, in submission order, without
  duplicates. A Subscribe request for a handle already in the topic's set leaves the
  broker as it is, and a Subscribe request for a topic that has no set creates the set
  with that handle.
\<close>

theorem requests_give_subscribed_minus_unsubscribed:
  assumes "list_all is_request (evs :: 'p event list)"
    and "distinct (spec_closes (\<lambda>t. {}) evs)"
    and "\<forall>h\<in>set (spec_closes (\<lambda>t. {}) evs). is_open cs h"
  shows "(\<exists>b. run evs (NewBroker cs) = Inr b \<and> running b \<and>
              (\<forall>t. set (lookup_subs b t) = spec_registered (\<lambda>t. {}) evs t \<and>
                   distinct (lookup_subs b t))) \<and>
         (\<forall>b0 t h. h \<in> set (lookup_subs b0 t) \<longrightarrow>
              select_case (FromSubCh (SubRequest t h)) (b0 :: 'p Broker) = Inr b0) \<and>
         (\<forall>b0 t h. map_of (subscriptions (b0 :: 'p Broker)) t = None \<longrightarrow>
              map_of (subscriptions (on_sub (SubRequest t h) b0)) t = Some [h])"
proof (intro conjI allI impI)
  have "running (NewBroker cs :: 'p Broker)"
    "\<forall>t. set (lookup_subs (NewBroker cs :: 'p Broker) t) = {}"
    "\<forall>t. distinct (lookup_subs (NewBroker cs :: 'p Broker) t)"
    "chans (NewBroker cs :: 'p Broker) = cs"
    by (simp_all add: NewBroker_def lookup_subs_def)
  with assms
  have "\<exists>b'. run evs (NewBroker cs :: 'p Broker) = Inr b' \<and> running b' \<and>
        (\<forall>t. set (lookup_subs b' t) = spec_registered (\<lambda>t. {}) evs t) \<and>
        (\<forall>t. distinct (lookup_subs b' t))"
    by (intro run_refines) simp_all
  then show "\<exists>b. run evs (NewBroker cs :: 'p Broker) = Inr b \<and> running b \<and>
              (\<forall>t. set (lookup_subs b t) = spec_registered (\<lambda>t. {}) evs t \<and>
                   distinct (lookup_subs b t))"
    by blast
next
  fix b0 :: "'p Broker" and t h
  assume "h \<in> set (lookup_subs b0 t)"
  then show "select_case (FromSubCh (SubRequest t h)) b0 = Inr b0"
    by (simp add: on_sub_registered_noop)
next
  fix b0 :: "'p Broker" and t h
  assume "map_of (subscriptions b0) t = None"
  then show "map_of (subscriptions (on_sub (SubRequest t h) b0)) t = Some [h]"
    by (simp add: on_sub_def map_of_map_entry update_conv' set_true_def)
qed

theorem requests_give_subscribed_minus_unsubscribed_witness:
  "list_all is_request
     [FromSubCh (SubRequest ''a'' 0), FromSubCh (SubRequest ''a'' 0),
      FromSubCh (SubRequest ''a'' 1), FromUnsubCh (UnsubRequest ''a'' 0),
      FromUnsubCh (UnsubRequest ''b'' 1) :: nat event] \<and>
   spec_closes (\<lambda>t. {})
     [FromSubCh (SubRequest ''a'' 0), FromSubCh (SubRequest ''a'' 0),
      FromSubCh (SubRequest ''a'' 1), FromUnsubCh (UnsubRequest ''a'' 0),
      FromUnsubCh (UnsubRequest ''b'' 1) :: nat event] = [0] \<and>
   is_open [\<lparr>cap = 10, is_closed = False\<rparr>, \<lparr>cap = 10, is_closed = False\<rparr>] 0 \<and>
   (\<exists>b. run [FromSubCh (SubRequest ''a'' 0), FromSubCh (SubRequest ''a'' 0),
             FromSubCh (SubRequest ''a'' 1), FromUnsubCh (UnsubRequest ''a'' 0),
             FromUnsubCh (UnsubRequest ''b'' 1)]
            (NewBroker [\<lparr>cap = 10, is_closed = False\<rparr>, \<lparr>cap = 10, is_closed = False\<rparr>]
               :: nat Broker) = Inr b \<and>
        set (lookup_subs b ''a'') = {1} \<and> set (lookup_subs b ''b'') = {})"
proof -
  let ?evs = "[FromSubCh (SubRequest ''a'' 0), FromSubCh (SubRequest ''a'' 0),
      FromSubCh (SubRequest ''a'' 1), FromUnsubCh (UnsubRequest ''a'' 0),
      FromUnsubCh (UnsubRequest ''b'' 1) :: nat event]"
  let ?cs = "[\<lparr>cap = 10, is_closed = False\<rparr>, \<lparr>cap = 10, is_closed = False\<rparr>]"
  have c: "spec_closes (\<lambda>t. {}) ?evs = [0]"
    by simp
  have r: "list_all is_request ?evs"
    by simp
  have o: "is_open ?cs 0"
    by (simp add: is_open_def)
  have d: "distinct (spec_closes (\<lambda>t. {}) ?evs)"
    unfolding c by simp
  have o': "\<forall>h\<in>set (spec_closes (\<lambda>t. {}) ?evs). is_open ?cs h"
    unfolding c using o by simp
  from requests_give_subscribed_minus_unsubscribed [OF r d o']
  obtain b :: "nat Broker" where b: "run ?evs (NewBroker ?cs) = Inr b"
       "\<forall>t. set (lookup_subs b t) = spec_registered (\<lambda>t. {}) ?evs t"
    by blast
  from b(2) have "set (lookup_subs b ''a'') = {1}" "set (lookup_subs b ''b'') = {}"
    by auto
  with b(1) r c o show ?thesis by blast
qed

text \<open>
  C2 as stated fails for a sequence that makes the loop close a channel twice: after
  Subscribe (a, 0), Unsubscribe (a, 0), Subscribe (a, 0) the handle 0 is registered again
  with its channel closed, the second Unsubscribe (a, 0) panics, and the Subscribe (a, 1)
  behind it is never handled, while subscribed minus unsubscribed is the set with 1 in it.
\<close>

theorem resubscribed_handle_counterexample:
  "run [FromSubCh (SubRequest ''a'' 0), FromUnsubCh (UnsubRequest ''a'' 0),
        FromSubCh (SubRequest ''a'' 0), FromUnsubCh (UnsubRequest ''a'' 0),
        FromSubCh (SubRequest ''a'' 1)]
       (NewBroker [\<lparr>cap = 10, is_closed = False\<rparr>, \<lparr>cap = 10, is_closed = False\<rparr>]
          :: nat Broker)
     = Inl CloseOfClosedChannel \<and>
   spec_registered (\<lambda>t. {})
     [FromSubCh (SubRequest ''a'' 0), FromUnsubCh (UnsubRequest ''a'' 0),
      FromSubCh (SubRequest ''a'' 0), FromUnsubCh (UnsubRequest ''a'' 0),
      FromSubCh (SubRequest ''a'' 1) :: nat event] ''a'' = {1}"
  by (simp add: NewBroker_def on_sub_def on_unsub_def set_true_def close_chan_def)

section \<open>The stop signal\<close>

text \<open>
  C3, as the code has it. When the loop receives the stop signal in a state where no
  handle is registered twice (under two topics), every registered handle's channel is
  open and no delivery is still pending, it closes the channel of every registered
  handle, returns, and its deferred function closes the three intake channels. From then
  on no handle receives anything: no delivery is pending or started, nothing that arrives
  afterwards is handled, a later \<open>Publish\<close> panics on the closed intake channel, and a send
  on a channel that was registered would panic.
\<close>

theorem stop_closes_every_registered_handle:
  assumes "distinct (registered b)" and "\<forall>h\<in>set (registered b). is_open (chans b) h"
    and "spawned b = []"
  shows "\<exists>b'. select_case StopSig b = Inr b' \<and>
           (\<forall>t. \<forall>h\<in>set (lookup_subs b t). is_closed (chans b' ! h)) \<and>
           \<not> running b' \<and> subCh_closed b' \<and> unsubCh_closed b' \<and> pubCh_closed b' \<and>
           spawned b' = [] \<and>
           (running b \<longrightarrow> (\<forall>evs. run (StopSig # evs) b = Inr b')) \<and>
           (\<forall>evs. run evs b' = Inr b') \<and>
           (\<forall>c i. finish_delivery c i b' = Inr b') \<and>
           (\<forall>t p. Publish t p b' = Inl SendOnClosedChannel) \<and>
           (\<forall>h\<in>set (registered b).
               delivery_body SendFirst h (chans b') = Inl SendOnClosedChannel)"
proof -
  from close_subs_ok[OF assms(1,2)[unfolded registered_def]]
  obtain cs' where cs': "close_subs (concat (map snd (subscriptions b))) (chans b) = Inr cs'"
    "length cs' = length (chans b)"
    "\<forall>i<length (chans b). cap (cs' ! i) = cap (chans b ! i) \<and>
       (is_closed (cs' ! i) \<longleftrightarrow> i \<in> set (concat (map snd (subscriptions b))) \<or> is_closed (chans b ! i))"
    by blast
  let ?b' = "exit_run (b\<lparr>chans := cs'\<rparr>)"
  have s: "select_case StopSig b = Inr ?b'"
    using cs'(1) by (simp add: on_stop_def close_topics_concat)
  have cl: "\<forall>h\<in>set (registered b). h < length cs' \<and> is_closed (cs' ! h)"
  proof
    fix h assume r: "h \<in> set (registered b)"
    with assms(2) have "h < length (chans b)" by (auto simp: is_open_def)
    with cs'(2,3) r show "h < length cs' \<and> is_closed (cs' ! h)" by (simp add: registered_def)
  qed
  have "\<forall>t. \<forall>h\<in>set (lookup_subs b t). is_closed (chans ?b' ! h)"
  proof (intro allI ballI)
    fix t h assume "h \<in> set (lookup_subs b t)"
    then have "h \<in> set (registered b)" by (rule lookup_subs_registered)
    with cl show "is_closed (chans ?b' ! h)" by (simp add: exit_run_def)
  qed
  moreover have "\<not> running ?b'" "subCh_closed ?b'" "unsubCh_closed ?b'" "pubCh_closed ?b'"
      "spawned ?b' = []"
    using assms(3) by (simp_all add: exit_run_def)
  moreover have "running b \<longrightarrow> (\<forall>evs. run (StopSig # evs) b = Inr ?b')"
    using s by (simp add: run_not_running exit_run_def)
  moreover have "\<forall>evs. run evs ?b' = Inr ?b'"
    by (simp add: run_not_running exit_run_def)
  moreover have "\<forall>c i. finish_delivery c i ?b' = Inr ?b'"
    using assms(3) by (simp add: finish_delivery_def exit_run_def)
  moreover have "\<forall>t p. Publish t p ?b' = Inl SendOnClosedChannel"
    by (simp add: Publish_def handoff_def exit_run_def)
  moreover have "\<forall>h\<in>set (registered b).
      delivery_body SendFirst h (chans ?b') = Inl SendOnClosedChannel"
    using cl by (auto simp add: delivery_body_def exit_run_def)
  ultimately show ?thesis using s by blast
qed

theorem stop_closes_every_registered_handle_witness:
  "run [FromSubCh (SubRequest ''a'' 0), FromSubCh (SubRequest ''b'' 1),
        FromPubCh (Message ''a'' 7)]
       (NewBroker [\<lparr>cap = 10, is_closed = False\<rparr>, \<lparr>cap = 10, is_closed = False\<rparr>] :: nat Broker)
     = Inr \<lparr>subscriptions = [(''a'', [0]), (''b'', [1])], subCh_closed = False, unsubCh_closed = False,
       pubCh_closed = False, stopCh_closed = False, chans = [\<lparr>cap = 10, is_closed = False\<rparr>, \<lparr>cap = 10, is_closed = False\<rparr>],
       spawned = [(0, Message ''a'' 7)], running = True\<rparr> \<and>
   finish_delivery SendFirst 0
     (\<lparr>subscriptions = [(''a'', [0]), (''b'', [1])], subCh_closed = False, unsubCh_closed = False,
       pubCh_closed = False, stopCh_closed = False, chans = [\<lparr>cap = 10, is_closed = False\<rparr>, \<lparr>cap = 10, is_closed = False\<rparr>],
       spawned = [(0, Message ''a'' 7)], running = True\<rparr> :: nat Broker)
     = Inr \<lparr>subscriptions = [(''a'', [0]), (''b'', [1])], subCh_closed = False, unsubCh_closed = False,
       pubCh_closed = False, stopCh_closed = False, chans = [\<lparr>cap = 10, is_closed = False\<rparr>, \<lparr>cap = 10, is_closed = False\<rparr>],
       spawned = [], running = True\<rparr> \<and>
   registered
     (\<lparr>subscriptions = [(''a'', [0]), (''b'', [1])], subCh_closed = False, unsubCh_closed = False,
       pubCh_closed = False, stopCh_closed = False, chans = [\<lparr>cap = 10, is_closed = False\<rparr>, \<lparr>cap = 10, is_closed = False\<rparr>],
       spawned = [], running = True\<rparr> :: nat Broker) = [0, 1] \<and>
   is_open [\<lparr>cap = 10, is_closed = False\<rparr>, \<lparr>cap = 10, is_closed = False\<rparr>] 0 \<and>
   is_open [\<lparr>cap = 10, is_closed = False\<rparr>, \<lparr>cap = 10, is_closed = False\<rparr>] 1 \<and>
   (\<exists>b'. select_case StopSig
      (\<lparr>subscriptions = [(''a'', [0]), (''b'', [1])], subCh_closed = False, unsubCh_closed = False,
       pubCh_closed = False, stopCh_closed = False, chans = [\<lparr>cap = 10, is_closed = False\<rparr>, \<lparr>cap = 10, is_closed = False\<rparr>],
       spawned = [], running = True\<rparr> :: nat Broker) = Inr b' \<and>
      is_closed (chans b' ! 0) \<and> is_closed (chans b' ! 1) \<and> \<not> running b' \<and>
      subCh_closed b' \<and> unsubCh_closed b' \<and> pubCh_closed b' \<and> spawned b' = [] \<and>
      Publish ''a'' 8 b' = Inl SendOnClosedChannel \<and>
      delivery_body SendFirst 0 (chans b') = Inl SendOnClosedChannel)"
proof -
  let ?cs = "[\<lparr>cap = 10, is_closed = False\<rparr>, \<lparr>cap = 10, is_closed = False\<rparr>]"
  let ?b1 = "\<lparr>subscriptions = [(''a'', [0]), (''b'', [1])], subCh_closed = False, unsubCh_closed = False,
       pubCh_closed = False, stopCh_closed = False, chans = [\<lparr>cap = 10, is_closed = False\<rparr>, \<lparr>cap = 10, is_closed = False\<rparr>],
       spawned = [(0, Message ''a'' 7)], running = True\<rparr> :: nat Broker"
  let ?b = "\<lparr>subscriptions = [(''a'', [0]), (''b'', [1])], subCh_closed = False, unsubCh_closed = False,
       pubCh_closed = False, stopCh_closed = False, chans = [\<lparr>cap = 10, is_closed = False\<rparr>, \<lparr>cap = 10, is_closed = False\<rparr>],
       spawned = [], running = True\<rparr> :: nat Broker"
  have e: "run [FromSubCh (SubRequest ''a'' 0), FromSubCh (SubRequest ''b'' 1),
        FromPubCh (Message ''a'' 7)] (NewBroker ?cs :: nat Broker) = Inr ?b1"
    by (simp add: NewBroker_def on_sub_def on_pub_def set_true_def)
  have f: "finish_delivery SendFirst 0 ?b1 = Inr ?b"
    by (simp add: finish_delivery_def delivery_body_def)
  have r: "registered ?b = [0, 1]"
    by (simp add: registered_def)
  have l: "lookup_subs ?b ''a'' = [0]" "lookup_subs ?b ''b'' = [1]"
    by (simp_all add: lookup_subs_def)
  have o0: "is_open ?cs 0" and o1: "is_open ?cs 1"
    by (simp_all add: is_open_def)
  have d: "distinct (registered ?b)" using r by simp
  have o: "\<forall>h\<in>set (registered ?b). is_open (chans ?b) h"
    using r o0 o1 by simp
  have p: "spawned ?b = []" by simp
  from stop_closes_every_registered_handle[OF d o p] obtain b' where
    b': "select_case StopSig ?b = Inr b'"
        "\<forall>t. \<forall>h\<in>set (lookup_subs ?b t). is_closed (chans b' ! h)"
        "\<not> running b'" "subCh_closed b'" "unsubCh_closed b'" "pubCh_closed b'"
        "spawned b' = []"
        "\<forall>t p. Publish t p b' = Inl SendOnClosedChannel"
        "\<forall>h\<in>set (registered ?b). delivery_body SendFirst h (chans b') = Inl SendOnClosedChannel"
    by blast
  from b'(2) l have c: "is_closed (chans b' ! 0)" "is_closed (chans b' ! 1)"
    by (metis list.set_intros(1))+
  from b'(9) r have "delivery_body SendFirst 0 (chans b') = Inl SendOnClosedChannel"
    by simp
  moreover from b'(8) have "Publish ''a'' 8 b' = Inl SendOnClosedChannel" by blast
  ultimately show ?thesis using e f r o0 o1 b'(1,3,4,5,6,7) c by blast
qed

text \<open>
  C3 as stated fails in three ways. With a handle registered under two topics the stop
  case closes its channel for the first topic and panics on the second close, before the
  channel of handle 1 is closed and without a normal return. With a delivery still
  pending (Subscribe (a, 0), Publish (a, 7), stop signal before the goroutine has sent)
  the stop case closes channel 0 and the goroutine's send then panics. And a message
  published after \<open>Stop\<close> was invoked is still received when the \<open>select\<close> takes the
  Publish request before the stop case: \<open>Stop\<close> only closes \<open>stopCh\<close>, the loop is still
  running, it starts the delivery, and the send succeeds.
\<close>

theorem stop_counterexample:
  "run [FromSubCh (SubRequest ''a'' 0), FromSubCh (SubRequest ''b'' 0),
        FromSubCh (SubRequest ''b'' 1), StopSig]
       (NewBroker [\<lparr>cap = 10, is_closed = False\<rparr>, \<lparr>cap = 10, is_closed = False\<rparr>] :: nat Broker)
     = Inl CloseOfClosedChannel \<and>
   run [FromSubCh (SubRequest ''a'' 0), FromPubCh (Message ''a'' 7), StopSig]
       (NewBroker [\<lparr>cap = 10, is_closed = False\<rparr>] :: nat Broker)
     = Inr \<lparr>subscriptions = [(''a'', [0])], subCh_closed = True, unsubCh_closed = True,
       pubCh_closed = True, stopCh_closed = False, chans = [\<lparr>cap = 10, is_closed = True\<rparr>],
       spawned = [(0, Message ''a'' 7)], running = False\<rparr> \<and>
   finish_delivery SendFirst 0
     (\<lparr>subscriptions = [(''a'', [0])], subCh_closed = True, unsubCh_closed = True,
       pubCh_closed = True, stopCh_closed = False, chans = [\<lparr>cap = 10, is_closed = True\<rparr>],
       spawned = [(0, Message ''a'' 7)], running = False\<rparr> :: nat Broker)
     = Inl SendOnClosedChannel \<and>
   Stop (\<lparr>subscriptions = [(''a'', [0])], subCh_closed = False, unsubCh_closed = False,
       pubCh_closed = False, stopCh_closed = False, chans = [\<lparr>cap = 10, is_closed = False\<rparr>],
       spawned = [], running = True\<rparr> :: nat Broker)
     = Inr \<lparr>subscriptions = [(''a'', [0])], subCh_closed = False, unsubCh_closed = False,
       pubCh_closed = False, stopCh_closed = True, chans = [\<lparr>cap = 10, is_closed = False\<rparr>],
       spawned = [], running = True\<rparr> \<and>
   Publish ''a'' 7
     (\<lparr>subscriptions = [(''a'', [0])], subCh_closed = False, unsubCh_closed = False,
       pubCh_closed = False, stopCh_closed = True, chans = [\<lparr>cap = 10, is_closed = False\<rparr>],
       spawned = [], running = True\<rparr> :: nat Broker)
     = Inr \<lparr>subscriptions = [(''a'', [0])], subCh_closed = False, unsubCh_closed = False,
       pubCh_closed = False, stopCh_closed = True, chans = [\<lparr>cap = 10, is_closed = False\<rparr>],
       spawned = [(0, Message ''a'' 7)], running = True\<rparr> \<and>
   delivery_body SendFirst 0 [\<lparr>cap = 10, is_closed = False\<rparr>] = Inr True"
  by (simp add: NewBroker_def on_sub_def on_pub_def on_stop_def set_true_def close_chan_def
        exit_run_def finish_delivery_def delivery_body_def Stop_def Publish_def handoff_def)

section \<open>Unsubscribe requests\<close>

text \<open>
  C4, as the code has it. Handling an Unsubscribe request (topic, handle): when the handle
  is in the topic's subscriber set and its channel is still open, the handle is removed
  from that set and its channel is closed; when the handle is not in the set (the topic is
  unknown, the handle is unknown or was removed before), the request is ignored: the
  iteration ends without a fault and the broker is exactly as before.
\<close>

theorem unsubscribe_removes_or_ignores:
  "(h \<in> set (lookup_subs b t) \<and> is_open (chans b) h \<longrightarrow>
      (\<exists>b'. select_case (FromUnsubCh (UnsubRequest t h)) b = Inr b' \<and>
            lookup_subs b' t = removeAll h (lookup_subs b t) \<and>
            h \<notin> set (lookup_subs b' t) \<and>
            chans b' = (chans b)[h := (chans b ! h)\<lparr>is_closed := True\<rparr>] \<and>
            is_closed (chans b' ! h))) \<and>
   (h \<notin> set (lookup_subs b t) \<longrightarrow>
      select_case (FromUnsubCh (UnsubRequest t h)) b = Inr b)"
proof (intro conjI impI)
  assume a: "h \<in> set (lookup_subs b t) \<and> is_open (chans b) h"
  then obtain hs where hs: "map_of (subscriptions b) t = Some hs" "h \<in> set hs"
    by (cases "map_of (subscriptions b) t") (auto simp: lookup_subs_def)
  from a have op: "is_open (chans b) h" by simp
  let ?b' = "b\<lparr>subscriptions := AList.map_entry t (removeAll h) (subscriptions b),
               chans := (chans b)[h := (chans b ! h)\<lparr>is_closed := True\<rparr>]\<rparr>"
  have "select_case (FromUnsubCh (UnsubRequest t h)) b = Inr ?b'"
    using hs op by (simp add: on_unsub_def close_chan_open)
  moreover have "lookup_subs ?b' t = removeAll h (lookup_subs b t)"
    using hs by (simp add: lookup_subs_def map_of_map_entry)
  moreover have "is_closed (chans ?b' ! h)"
    using op by (simp add: is_open_def)
  ultimately show "\<exists>b'. select_case (FromUnsubCh (UnsubRequest t h)) b = Inr b' \<and>
            lookup_subs b' t = removeAll h (lookup_subs b t) \<and>
            h \<notin> set (lookup_subs b' t) \<and>
            chans b' = (chans b)[h := (chans b ! h)\<lparr>is_closed := True\<rparr>] \<and>
            is_closed (chans b' ! h)"
    by (intro exI[of _ ?b']) simp
next
  assume "h \<notin> set (lookup_subs b t)"
  then show "select_case (FromUnsubCh (UnsubRequest t h)) b = Inr b"
    by (simp add: on_unsub_def lookup_subs_def split: option.splits)
qed

theorem unsubscribe_removes_or_ignores_witness:
  "(0 \<in> set (lookup_subs (on_sub (SubRequest ''a'' 0)
                 (NewBroker [\<lparr>cap = 10, is_closed = False\<rparr>] :: nat Broker)) ''a'') \<and>
    is_open (chans (on_sub (SubRequest ''a'' 0)
                 (NewBroker [\<lparr>cap = 10, is_closed = False\<rparr>] :: nat Broker))) 0) \<and>
   (\<exists>b'. select_case (FromUnsubCh (UnsubRequest ''a'' 0))
            (on_sub (SubRequest ''a'' 0)
               (NewBroker [\<lparr>cap = 10, is_closed = False\<rparr>] :: nat Broker)) = Inr b' \<and>
         lookup_subs b' ''a'' = [] \<and> is_closed (chans b' ! 0)) \<and>
   0 \<notin> set (lookup_subs (NewBroker [\<lparr>cap = 10, is_closed = False\<rparr>] :: nat Broker) ''a'') \<and>
   select_case (FromUnsubCh (UnsubRequest ''a'' 0))
     (NewBroker [\<lparr>cap = 10, is_closed = False\<rparr>] :: nat Broker)
     = Inr (NewBroker [\<lparr>cap = 10, is_closed = False\<rparr>])"
  using unsubscribe_removes_or_ignores
          [of 0 "on_sub (SubRequest ''a'' 0)
                   (NewBroker [\<lparr>cap = 10, is_closed = False\<rparr>] :: nat Broker)" "''a''"]
        unsubscribe_removes_or_ignores
          [of 0 "NewBroker [\<lparr>cap = 10, is_closed = False\<rparr>] :: nat Broker" "''a''"]
  by (auto simp add: NewBroker_def on_sub_def set_true_def lookup_subs_def is_open_def)

text \<open>
  C4 as stated fails for a handle that is in the topic's set with its channel already
  closed (the state after Subscribe (a, 0), Subscribe (b, 0), Unsubscribe (a, 0)): the
  handle is deleted from the set, the close panics and the loop ends there.
\<close>

theorem unsubscribe_closed_handle_counterexample:
  "lookup_subs
     (\<lparr>subscriptions = [(''a'', []), (''b'', [0])], subCh_closed = False,
       unsubCh_closed = False, pubCh_closed = False, stopCh_closed = False,
       chans = [\<lparr>cap = 10, is_closed = True\<rparr>], spawned = [], running = True\<rparr>
        :: nat Broker) ''b'' = [0] \<and>
   select_case (FromUnsubCh (UnsubRequest ''b'' 0))
     (\<lparr>subscriptions = [(''a'', []), (''b'', [0])], subCh_closed = False,
       unsubCh_closed = False, pubCh_closed = False, stopCh_closed = False,
       chans = [\<lparr>cap = 10, is_closed = True\<rparr>], spawned = [], running = True\<rparr>
        :: nat Broker)
     = Inl CloseOfClosedChannel"
  by (simp add: on_unsub_def close_chan_def lookup_subs_def)

section \<open>Publish requests\<close>

text \<open>
  C5. Handling a Publish request for a topic that has no subscriber (no set at all, or an
  empty one) changes nothing: no delivery goroutine is started, nothing is queued, the
  subscription map is as before and there is no fault; and \<open>Publish\<close> itself, on a running
  broker, returns as soon as the request has been handed over and handled.
\<close>

theorem publish_no_subscribers_noop:
  "lookup_subs b t = [] \<Longrightarrow>
     select_case (FromPubCh (Message t p)) b = Inr b \<and>
     (running b \<and> \<not> pubCh_closed b \<longrightarrow> Publish t p b = Inr b)"
  by (simp add: on_pub_def lookup_subs_def Publish_def handoff_def split: option.splits)

theorem publish_no_subscribers_noop_witness:
  "lookup_subs (NewBroker [] :: nat Broker) ''news'' = [] \<and>
   select_case (FromPubCh (Message ''news'' 7)) (NewBroker [] :: nat Broker) = Inr (NewBroker []) \<and>
   Publish ''news'' 7 (NewBroker [] :: nat Broker) = Inr (NewBroker [])"
  using publish_no_subscribers_noop [of "NewBroker [] :: nat Broker" "''news''" 7]
  by (simp add: NewBroker_def lookup_subs_def)

section \<open>Subscribe\<close>



section \<open>What an Unsubscribe request leaves alone\<close>

text \<open>
  C9. Handling an Unsubscribe request (t, h) changes at most the set of topic t: when the
  iteration completes, every other topic has the inner map it had, no channel other than
  h has changed, and the store has changed only if h was in the set of t. When h is not
  in the set of t (for instance because it is registered under another topic only), the
  broker is left exactly as it was, so h stays registered there and its channel stays as
  it was, open if it was open.
\<close>

theorem unsubscribe_touches_only_its_topic:
  "(\<forall>b'. select_case (FromUnsubCh (UnsubRequest t h)) b = Inr b' \<longrightarrow>
       (\<forall>t'. t' \<noteq> t \<longrightarrow> map_of (subscriptions b') t' = map_of (subscriptions b) t') \<and>
       length (chans b') = length (chans b) \<and>
       (\<forall>h'. h' \<noteq> h \<longrightarrow> chans b' ! h' = chans b ! h') \<and>
       (chans b' \<noteq> chans b \<longrightarrow> h \<in> set (lookup_subs b t))) \<and>
   (h \<notin> set (lookup_subs b t) \<longrightarrow>
       select_case (FromUnsubCh (UnsubRequest t h)) b = Inr b)"
proof (intro conjI allI impI)
  assume "h \<notin> set (lookup_subs b t)"
  then show "select_case (FromUnsubCh (UnsubRequest t h)) b = Inr b"
    by (simp add: on_unsub_def lookup_subs_def split: option.splits)
next
  fix b' assume a: "select_case (FromUnsubCh (UnsubRequest t h)) b = Inr b'"
  show "length (chans b') = length (chans b)" using select_case_length[OF a] .
  {
    fix t' assume "t' \<noteq> t"
    then show "map_of (subscriptions b') t' = map_of (subscriptions b) t'"
      using a by (auto simp: on_unsub_def Let_def map_of_map_entry split: option.splits if_splits sum.splits)
  }
  {
    fix h' assume "h' \<noteq> h"
    then show "chans b' ! h' = chans b ! h'"
      using a by (auto simp: on_unsub_def Let_def dest!: close_chan_Inr split: option.splits if_splits sum.splits)
  }
  {
    assume "chans b' \<noteq> chans b"
    then show "h \<in> set (lookup_subs b t)"
      using a by (auto simp: on_unsub_def lookup_subs_def split: option.splits if_splits sum.splits)
  }
qed

theorem unsubscribe_touches_only_its_topic_witness:
  "select_case (FromUnsubCh (UnsubRequest ''a'' 0))
     (\<lparr>subscriptions = [(''a'', [0]), (''b'', [1])], subCh_closed = False,
       unsubCh_closed = False, pubCh_closed = False, stopCh_closed = False,
       chans = [\<lparr>cap = 10, is_closed = False\<rparr>, \<lparr>cap = 10, is_closed = False\<rparr>],
       spawned = [], running = True\<rparr> :: nat Broker)
     = Inr \<lparr>subscriptions = [(''a'', []), (''b'', [1])], subCh_closed = False,
            unsubCh_closed = False, pubCh_closed = False, stopCh_closed = False,
            chans = [\<lparr>cap = 10, is_closed = True\<rparr>, \<lparr>cap = 10, is_closed = False\<rparr>],
            spawned = [], running = True\<rparr> \<and>
   1 \<notin> set (lookup_subs
     (\<lparr>subscriptions = [(''a'', [0]), (''b'', [1])], subCh_closed = False,
       unsubCh_closed = False, pubCh_closed = False, stopCh_closed = False,
       chans = [\<lparr>cap = 10, is_closed = False\<rparr>, \<lparr>cap = 10, is_closed = False\<rparr>],
       spawned = [], running = True\<rparr> :: nat Broker) ''a'') \<and>
   select_case (FromUnsubCh (UnsubRequest ''a'' 1))
     (\<lparr>subscriptions = [(''a'', [0]), (''b'', [1])], subCh_closed = False,
       unsubCh_closed = False, pubCh_closed = False, stopCh_closed = False,
       chans = [\<lparr>cap = 10, is_closed = False\<rparr>, \<lparr>cap = 10, is_closed = False\<rparr>],
       spawned = [], running = True\<rparr> :: nat Broker)
     = Inr \<lparr>subscriptions = [(''a'', [0]), (''b'', [1])], subCh_closed = False,
            unsubCh_closed = False, pubCh_closed = False, stopCh_closed = False,
            chans = [\<lparr>cap = 10, is_closed = False\<rparr>, \<lparr>cap = 10, is_closed = False\<rparr>],
            spawned = [], running = True\<rparr>"
  using unsubscribe_touches_only_its_topic
          [of "''a''" 0 "\<lparr>subscriptions = [(''a'', [0]), (''b'', [1])], subCh_closed = False,
       unsubCh_closed = False, pubCh_closed = False, stopCh_closed = False,
       chans = [\<lparr>cap = 10, is_closed = False\<rparr>, \<lparr>cap = 10, is_closed = False\<rparr>],
       spawned = [], running = True\<rparr> :: nat Broker"]
        unsubscribe_touches_only_its_topic
          [of "''a''" 1 "\<lparr>subscriptions = [(''a'', [0]), (''b'', [1])], subCh_closed = False,
       unsubCh_closed = False, pubCh_closed = False, stopCh_closed = False,
       chans = [\<lparr>cap = 10, is_closed = False\<rparr>, \<lparr>cap = 10, is_closed = False\<rparr>],
       spawned = [], running = True\<rparr> :: nat Broker"]
  by (simp add: on_unsub_def close_chan_def lookup_subs_def)

section \<open>The concurrent sum against the sequential one\<close>

text \<open>
  C10. The claim is that \<open>sumSquaresConcurrent data w\<close> returns what
  \<open>sumSquaresSequential data\<close> returns whenever \<open>1 \<le> w \<le> len(data)\<close>. The code does not
  do that: for five elements and four workers the chunk size is 2, the fourth chunk
  starts at 6, beyond the end 5 of the data, and the slice expression \<open>data[6:5]\<close>
  panics, while the sequential sum is 55. (The two agree whenever the last chunk starts
  inside the data, see \<open>sumSquaresConcurrent_agrees\<close>.)
\<close>

theorem sumSquaresConcurrent_five_elements_four_workers:
  "length [1, 2, 3, 4, 5 :: 64 word] = 5 \<and>
   sumSquaresConcurrent [1, 2, 3, 4, 5] 4 = Inl SliceBoundsOutOfRange \<and>
   sumSquaresSequential [1, 2, 3, 4, 5] = 55"
  by (simp add: sumSquaresConcurrent_def sumSquaresSequential_def slice_def upt_rec
        worker_def)

end
